theory Spec2Isabelle
  imports Complex_Main "HOL-Library.Word" "HOL-Library.Log_Nat" "HOL-Library.Signed_Division"
begin

unbundle bit_operations_syntax

section \<open>Data model\<close>

text \<open>
  Go's \<open>uint64\<close>, \<open>int64\<close> and \<open>uint32\<close> are fixed-width words: \<open>+\<close>, \<open>-\<close> and
  \<open>*\<close> wrap. \<open>int64\<close> and \<open>uint64\<close> share the carrier; a conversion between them keeps
  the bit pattern, and signedness lives in the comparison (\<open><s\<close>, \<open>sint\<close>) that reads it.
\<close>

type_synonym u64 = "64 word"
type_synonym i64 = "64 word"
type_synonym u32 = "32 word"

subsection \<open>int128.go\<close>

record Uint128 =
  Lo :: u64
  Hi :: u64

text \<open>The number a \<open>Uint128\<close> stands for: \<open>Hi * 2^64 + Lo\<close>.\<close>

definition val128 :: "Uint128 \<Rightarrow> nat" where
  "val128 u = unat (Hi u) * 2 ^ 64 + unat (Lo u)"

text \<open>Bit \<open>i\<close> of the 128-bit value, bit 0 being the least significant bit of \<open>Lo\<close>.\<close>

definition bit128 :: "Uint128 \<Rightarrow> nat \<Rightarrow> bool" where
  "bit128 u i = (if i < 64 then bit (Lo u) i else bit (Hi u) (i - 64))"

text \<open>\<open>func (u *Uint128) Add(value Uint128)\<close>: the receiver after the call.\<close>

definition Add :: "Uint128 \<Rightarrow> Uint128 \<Rightarrow> Uint128" where
  "Add u v =
     (let lo = Lo u + Lo v;
          hi = (if lo < Lo v then Hi u + 1 else Hi u)
      in \<lparr>Lo = lo, Hi = hi + Hi v\<rparr>)"

text \<open>\<open>func (u *Uint128) Sub(value Uint128)\<close>: the receiver after the call.\<close>

definition Sub :: "Uint128 \<Rightarrow> Uint128 \<Rightarrow> Uint128" where
  "Sub u v =
     (let lo = Lo u - Lo v;
          hi = (if lo > Lo v then Hi u - 1 else Hi u)
      in \<lparr>Lo = lo, Hi = hi - Hi v\<rparr>)"

text \<open>
  \<open>func (u *Uint128) Mask(n uint64)\<close>, the method (the package also has a function of
  the same name). A Go shift \<open>1 << n\<close> on \<open>uint64\<close> is \<open>push_bit\<close>.
\<close>

definition Mask_method :: "Uint128 \<Rightarrow> u64 \<Rightarrow> Uint128" where
  "Mask_method u n =
     (if n \<ge> 128 then u
      else if n \<ge> 64 then u\<lparr>Hi := Hi u AND (push_bit (unat (n AND 63)) 1 - 1)\<rparr>
      else u\<lparr>Lo := Lo u AND (push_bit (unat n) 1 - 1)\<rparr>)"

text \<open>\<open>func (u *Uint128) Bit(n uint64) uint64\<close>.\<close>

definition Bit :: "Uint128 \<Rightarrow> u64 \<Rightarrow> u64" where
  "Bit u n =
     (if n \<ge> 128 then 0
      else if n \<ge> 64 then drop_bit (unat (n AND 63)) (Hi u) AND 1
      else drop_bit (unat n) (Lo u) AND 1)"

subsection \<open>Sequences and offsets\<close>

text \<open>
  The \<open>Sequence\<close> interface is declared outside the files at hand; the code uses one
  method of it, \<open>BitsAt\<close>, so a sequence is taken as a parameter: the function its
  \<open>BitsAt\<close> computes. An interface value can be \<open>nil\<close> (\<open>None\<close>); calling a method on
  it panics.
\<close>

type_synonym Sequence = "Uint128 \<Rightarrow> Uint128"

datatype panic = DivideByZero | IndexOutOfRange | NilDereference

definition BitsAt :: "Sequence option \<Rightarrow> Uint128 \<Rightarrow> panic + Uint128" where
  "BitsAt src offset = (case src of None \<Rightarrow> Inl NilDereference | Some s \<Rightarrow> Inr (s offset))"

text \<open>Modelled from the spec: the sequence tags (section 3), constants declared outside the files at hand.\<close>

definition SequencePermutationK :: "8 word" where "SequencePermutationK = 1"
definition SequencePermutationF :: "8 word" where "SequencePermutationF = 2"
definition SequenceZipfU :: "8 word" where "SequenceZipfU = 5"

text \<open>
  Modelled from the spec: \<open>OffsetFor\<close> (sections 3 and 4.3), a function defined outside the files
  at hand. Low word: the id. High word: bits 0..23 the iteration, bits 24..31 the
  sequence tag, bits 32..63 the seed.
\<close>

definition OffsetFor :: "8 word \<Rightarrow> u32 \<Rightarrow> u32 \<Rightarrow> u64 \<Rightarrow> Uint128" where
  "OffsetFor tag seed iter ident =
     \<lparr>Lo = ident,
      Hi = push_bit 32 (ucast seed) OR push_bit 24 (ucast tag) OR ucast iter\<rparr>"

subsection \<open>permute.go\<close>

text \<open>
  \<open>rounds\<close> is a Go \<open>int\<close> that holds \<open>6 * bits\<close> with \<open>0 \<le> bits \<le> 64\<close>: a natural
  number. The loop counters \<open>i\<close> run from 0 to \<open>rounds\<close> and are natural numbers too,
  converted where the code uses them as \<open>uint64\<close>.
\<close>

record Permutation =
  p_src :: "Sequence option"
  p_permSeed :: u32
  p_max :: i64
  p_counter :: i64
  p_rounds :: nat
  p_bits :: Uint128
  p_k :: "u64 list"

text \<open>
  \<open>bits.LeadingZeros64\<close> of Go's standard library: the number of zero bits above the
  highest set bit, 64 for 0.
\<close>

definition LeadingZeros64 :: "u64 \<Rightarrow> nat" where
  "LeadingZeros64 x = length (takeWhile (\<lambda>i. \<not> bit x i) (rev [0..<64]))"

text \<open>
  The rejection loop of \<open>NewPermutation\<close>:
  \<open>for bits.Lo >= maxMultiple { offset.Hi++; bits = p.src.BitsAt(offset) }\<close>.
  It yields the offset it stops at; \<open>None\<close> is a loop that never stops.
\<close>

partial_function (option) skipRejected :: "Sequence \<Rightarrow> u64 \<Rightarrow> Uint128 \<Rightarrow> Uint128 option" where
  "skipRejected s maxMultiple offset =
     (if Lo (s offset) \<ge> maxMultiple
      then skipRejected s maxMultiple (offset\<lparr>Hi := Hi offset + 1\<rparr>)
      else Some offset)"

text \<open>
  The loop \<open>for i := uint64(0); i < uint64(p.rounds); i++\<close> of \<open>NewPermutation\<close>, filling
  \<open>p.k\<close>, from round \<open>i\<close> on.
\<close>

function fillK :: "Sequence \<Rightarrow> u32 \<Rightarrow> u64 \<Rightarrow> u64 \<Rightarrow> nat \<Rightarrow> nat \<Rightarrow> u64 list \<Rightarrow> u64 list option" where
  "fillK s seed maxMultiple m rounds i ks =
     (if i < rounds
      then (case skipRejected s maxMultiple (OffsetFor SequencePermutationK seed 0 (of_nat i)) of
              None \<Rightarrow> None
            | Some offset \<Rightarrow>
                fillK s seed maxMultiple m rounds (i + 1) (ks[i := Lo (s offset) mod m]))
      else Some ks)"
  by pat_completeness auto
termination
  by (relation "measure (\<lambda>(s, seed, maxMultiple, m, rounds, i, ks). rounds - i)") auto

declare fillK.simps [simp del]

text \<open>
  \<open>NewPermutation\<close>. The result is \<open>None\<close> when the call does not return, \<open>Inl\<close> a panic,
  and otherwise the pair \<open>(*Permutation, error)\<close> that Go returns, \<open>None\<close> standing for
  \<open>nil\<close>.
\<close>

definition NewPermutation ::
  "i64 \<Rightarrow> u32 \<Rightarrow> Sequence option \<Rightarrow> (panic + (Permutation option \<times> string option)) option" where
  "NewPermutation mx seed src =
     (if mx <s 1 then Some (Inr (None, Some ''period must be positive''))
      else
        let bits = 64 - LeadingZeros64 mx;
            rounds = 6 * bits;
            maxMultiple = ((- 1) div mx) * mx
        in if rounds = 0
           then Some (Inr (Some \<lparr>p_src = src, p_permSeed = seed, p_max = mx, p_counter = 0,
                                 p_rounds = rounds, p_bits = \<lparr>Lo = 0, Hi = 0\<rparr>, p_k = []\<rparr>, None))
           else
             (case src of
                None \<Rightarrow> Some (Inl NilDereference)
              | Some s \<Rightarrow>
                  (case fillK s seed maxMultiple mx rounds 0 (replicate rounds 0) of
                     None \<Rightarrow> None
                   | Some ks \<Rightarrow>
                       Some (Inr (Some \<lparr>p_src = src, p_permSeed = seed, p_max = mx, p_counter = 0,
                                        p_rounds = rounds, p_bits = \<lparr>Lo = 0, Hi = 0\<rparr>, p_k = ks\<rparr>,
                                  None)))))"

text \<open>The local variables of the loop of \<open>nextValue\<close>; \<open>p.bits\<close> is carried along with them.\<close>

record loop_state =
  ls_x :: u64
  ls_prev :: u64
  ls_offset :: Uint128
  ls_bits :: Uint128

text \<open>One pass through the body of the loop of \<open>nextValue\<close>, at round \<open>i\<close>.\<close>

definition nextValue_round :: "Permutation \<Rightarrow> nat \<Rightarrow> loop_state \<Rightarrow> panic + loop_state" where
  "nextValue_round p i st =
     (let m = p_max p;
          st1 = (if i > 0 \<and> (of_nat i :: u64) AND 127 = 0
                 then st\<lparr>ls_offset := (ls_offset st)\<lparr>Hi := Hi (ls_offset st) + 1\<rparr>,
                         ls_prev := m + 1\<rparr>
                 else st)
      in if length (p_k p) \<le> i then Inl IndexOutOfRange
         else
           let x = ls_x st1;
               xPrime = ((p_k p ! i) + m - x) mod m;
               xCaret = (if xPrime > x then xPrime else x)
           in case (if xCaret \<noteq> ls_prev st1
                    then (case BitsAt (p_src p) ((ls_offset st1)\<lparr>Lo := xCaret\<rparr>) of
                            Inl e \<Rightarrow> Inl e
                          | Inr b \<Rightarrow> Inr (st1\<lparr>ls_offset := (ls_offset st1)\<lparr>Lo := xCaret\<rparr>,
                                              ls_bits := b, ls_prev := xCaret\<rparr>))
                    else Inr st1) of
                Inl e \<Rightarrow> Inl e
              | Inr st2 \<Rightarrow>
                  Inr (if Bit (ls_bits st2) (of_nat i) \<noteq> 0 then st2\<lparr>ls_x := xPrime\<rparr> else st2))"

text \<open>The loop \<open>for i := uint64(0); i < uint64(p.rounds); i++\<close> of \<open>nextValue\<close>, from round \<open>i\<close> on.\<close>

function nextValue_loop :: "Permutation \<Rightarrow> nat \<Rightarrow> loop_state \<Rightarrow> panic + loop_state" where
  "nextValue_loop p i st =
     (if i < p_rounds p
      then (case nextValue_round p i st of
              Inl e \<Rightarrow> Inl e
            | Inr st' \<Rightarrow> nextValue_loop p (i + 1) st')
      else Inr st)"
  by pat_completeness auto
termination
  by (relation "measure (\<lambda>(p, i, st). p_rounds p - i)") auto

declare nextValue_loop.simps [simp del]

text \<open>
  \<open>func (p *Permutation) nextValue() int64\<close>: the value returned and the receiver after
  the call. The first \<open>%\<close> panics when \<open>p.max\<close> is 0.
\<close>

definition nextValue :: "Permutation \<Rightarrow> panic + (i64 \<times> Permutation)" where
  "nextValue p =
     (if p_max p = 0 then Inl DivideByZero
      else
        let c = p_counter p mod p_max p;
            st = \<lparr>ls_x = c, ls_prev = p_max p + 1,
                  ls_offset = OffsetFor SequencePermutationF (p_permSeed p) 0 0,
                  ls_bits = p_bits p\<rparr>
        in case nextValue_loop p 0 st of
             Inl e \<Rightarrow> Inl e
           | Inr st' \<Rightarrow> Inr (ls_x st', p\<lparr>p_counter := c + 1, p_bits := ls_bits st'\<rparr>))"

text \<open>\<open>func (p *Permutation) Next() (ret int64)\<close>.\<close>

definition Permutation_Next :: "Permutation \<Rightarrow> panic + (i64 \<times> Permutation)" where
  "Permutation_Next p = nextValue p"

text \<open>
  \<open>func (p *Permutation) Nth(n int64) (ret int64)\<close>. Go's \<open>%\<close> on \<open>int64\<close> truncates
  towards zero (\<open>smod\<close>) and panics on a zero divisor.
\<close>

definition Permutation_Nth :: "Permutation \<Rightarrow> i64 \<Rightarrow> panic + (i64 \<times> Permutation)" where
  "Permutation_Nth p n =
     (if n <s 0 \<and> p_max p = 0 then Inl DivideByZero
      else
        let n' = (if n <s 0 then p_max p + word_of_int (sint n smod sint (p_max p)) else n)
        in nextValue (p\<lparr>p_counter := n'\<rparr>))"

text \<open>\<open>n\<close> calls of \<open>Next\<close> in a row, as the loop of \<open>Test_PermuteCycle\<close> makes them: the values in order.\<close>

fun Permutation_Nexts :: "nat \<Rightarrow> Permutation \<Rightarrow> panic + (i64 list \<times> Permutation)" where
  "Permutation_Nexts 0 p = Inr ([], p)"
| "Permutation_Nexts (Suc n) p =
     (case Permutation_Next p of
        Inl e \<Rightarrow> Inl e
      | Inr (v, p') \<Rightarrow>
          (case Permutation_Nexts n p' of
             Inl e \<Rightarrow> Inl e
           | Inr (vs, p'') \<Rightarrow> Inr (v # vs, p'')))"

subsection \<open>The Zipf sampler\<close>

text \<open>
  IEEE-754 double precision is not formalised. The type of floating-point numbers is a
  type parameter \<open>'f\<close> and the operations the code uses on \<open>float64\<close> are the fields
  of a record that every function of the sampler takes: a statement proved for every
  \<open>'f float_ops\<close> holds for the operations of the machine. \<open>f_lit\<close> is a constant of the
  program text, \<open>f_of_u64\<close> the conversion \<open>float64(x)\<close> and \<open>f_to_u64\<close> the conversion
  \<open>uint64(x)\<close>; \<open>a >= b\<close> is \<open>f_le b a\<close>.
\<close>

record 'f float_ops =
  f_isNaN :: "'f \<Rightarrow> bool"
  f_le :: "'f \<Rightarrow> 'f \<Rightarrow> bool"
  f_lt :: "'f \<Rightarrow> 'f \<Rightarrow> bool"
  f_add :: "'f \<Rightarrow> 'f \<Rightarrow> 'f"
  f_sub :: "'f \<Rightarrow> 'f \<Rightarrow> 'f"
  f_mul :: "'f \<Rightarrow> 'f \<Rightarrow> 'f"
  f_div :: "'f \<Rightarrow> 'f \<Rightarrow> 'f"
  f_neg :: "'f \<Rightarrow> 'f"
  f_exp :: "'f \<Rightarrow> 'f"
  f_log :: "'f \<Rightarrow> 'f"
  f_floor :: "'f \<Rightarrow> 'f"
  f_lit :: "real \<Rightarrow> 'f"
  f_of_u64 :: "u64 \<Rightarrow> 'f"
  f_to_u64 :: "'f \<Rightarrow> u64"

text \<open>\<open>type Zipf struct\<close>.\<close>

record 'f Zipf =
  z_src :: "Sequence option"
  z_seed :: u32
  z_q :: 'f
  z_v :: 'f
  z_max :: 'f
  z_oneMinusQ :: 'f
  z_oneOverOneMinusQ :: 'f
  z_hImaxOneHalf :: 'f
  z_hX0MinusHImaxOneHalf :: 'f
  z_s :: 'f
  z_idx :: u64

text \<open>\<open>func h(z *Zipf, x float64) float64\<close> and \<open>func hInv(z *Zipf, x float64) float64\<close>.\<close>

definition h :: "'f float_ops \<Rightarrow> 'f Zipf \<Rightarrow> 'f \<Rightarrow> 'f" where
  "h fo z x =
     f_mul fo (f_exp fo (f_mul fo (z_oneMinusQ z) (f_log fo (f_add fo (z_v z) x))))
       (z_oneOverOneMinusQ z)"

definition hInv :: "'f float_ops \<Rightarrow> 'f Zipf \<Rightarrow> 'f \<Rightarrow> 'f" where
  "hInv fo z x =
     f_add fo (f_neg fo (z_v z))
       (f_exp fo (f_mul fo (z_oneOverOneMinusQ z) (f_log fo (f_mul fo (z_oneMinusQ z) x))))"

text \<open>An error made by \<open>fmt.Errorf\<close>: the format string and the arguments.\<close>

datatype 'f error = Errorf string "'f list"

text \<open>
  \<open>NewZipf\<close>: the pair \<open>(*Zipf, error)\<close> that Go returns, \<open>None\<close> standing for \<open>nil\<close>. The
  composite literal leaves the fields it does not name at zero, and the assignments
  that follow fill them in one after the other.
\<close>

definition NewZipf ::
  "'f float_ops \<Rightarrow> 'f \<Rightarrow> 'f \<Rightarrow> u64 \<Rightarrow> u32 \<Rightarrow> Sequence option \<Rightarrow> 'f Zipf option \<times> 'f error option" where
  "NewZipf fo q v mx seed src =
     (if f_isNaN fo q \<or> f_isNaN fo v
      then (None, Some (Errorf ''q (%g) and v (%g) must not be NaN for Zipf distribution'' [q, v]))
      else if f_le fo q (f_lit fo 1) \<or> f_lt fo v (f_lit fo 1)
      then (None, Some (Errorf ''need q > 1 (got %g) and v >= 1 (got %g) for Zipf distribution'' [q, v]))
      else if src = None
      then (None, Some (Errorf ''need a usable PRNG apophenia.Sequence'' []))
      else
        let oneMinusQ = f_sub fo (f_lit fo 1) q;
            oneOverOneMinusQ = f_div fo (f_lit fo 1) (f_sub fo (f_lit fo 1) q);
            z0 = \<lparr>z_src = None, z_seed = seed, z_q = q, z_v = v, z_max = f_of_u64 fo mx,
                  z_oneMinusQ = oneMinusQ, z_oneOverOneMinusQ = oneOverOneMinusQ,
                  z_hImaxOneHalf = f_lit fo 0, z_hX0MinusHImaxOneHalf = f_lit fo 0,
                  z_s = f_lit fo 0, z_idx = 0\<rparr>;
            hX0 = f_sub fo (h fo z0 (f_lit fo 0.5))
                    (f_exp fo (f_mul fo (f_log fo v) (f_neg fo q)));
            z1 = z0\<lparr>z_hImaxOneHalf := h fo z0 (f_add fo (z_max z0) (f_lit fo 0.5))\<rparr>;
            z2 = z1\<lparr>z_hX0MinusHImaxOneHalf := f_sub fo hX0 (z_hImaxOneHalf z1)\<rparr>;
            z3 = z2\<lparr>z_s := f_sub fo (f_lit fo 1)
                    (hInv fo z2 (f_sub fo (h fo z2 (f_lit fo 1.5))
                       (f_exp fo (f_mul fo (f_log fo (f_add fo v (f_lit fo 1))) (f_neg fo q)))))\<rparr>;
            z4 = z3\<lparr>z_src := src\<rparr>
        in (Some z4, None))"

text \<open>
  The loop \<open>for { ... }\<close> of \<open>Nth\<close>, from the offset it is entered with; \<open>None\<close> is a
  loop that never returns.
\<close>

partial_function (option) Zipf_Nth_loop ::
  "'f float_ops \<Rightarrow> 'f Zipf \<Rightarrow> Uint128 \<Rightarrow> (panic + u64) option" where
  "Zipf_Nth_loop fo z offset =
     (case BitsAt (z_src z) offset of
        Inl e \<Rightarrow> Some (Inl e)
      | Inr bits \<Rightarrow>
          let uInt = Lo bits;
              u0 = f_div fo (f_of_u64 fo (uInt AND (push_bit 53 1 - 1))) (f_lit fo (2 ^ 53));
              u = f_add fo (z_hImaxOneHalf z) (f_mul fo u0 (z_hX0MinusHImaxOneHalf z));
              x = hInv fo z u;
              k = f_floor fo (f_add fo x (f_lit fo 0.5))
          in if f_le fo (f_sub fo k x) (z_s z) then Some (Inr (f_to_u64 fo k))
             else if f_le fo
                       (f_sub fo (h fo z (f_add fo k (f_lit fo 0.5)))
                          (f_exp fo (f_mul fo (f_neg fo (f_log fo (f_add fo (z_v z) k))) (z_q z))))
                       u
             then Some (Inr (f_to_u64 fo k))
             else Zipf_Nth_loop fo z (offset\<lparr>Hi := Hi offset + 1\<rparr>))"

text \<open>
  \<open>func (z *Zipf) Nth(index uint64) uint64\<close> and \<open>func (z *Zipf) Next() uint64\<close>: the
  value returned and the receiver after the call.
\<close>

definition Zipf_Nth :: "'f float_ops \<Rightarrow> 'f Zipf \<Rightarrow> u64 \<Rightarrow> (panic + (u64 \<times> 'f Zipf)) option" where
  "Zipf_Nth fo z index =
     (let z' = z\<lparr>z_idx := index\<rparr>
      in case Zipf_Nth_loop fo z' (OffsetFor SequenceZipfU (z_seed z') 0 index) of
           None \<Rightarrow> None
         | Some (Inl e) \<Rightarrow> Some (Inl e)
         | Some (Inr r) \<Rightarrow> Some (Inr (r, z')))"

definition Zipf_Next :: "'f float_ops \<Rightarrow> 'f Zipf \<Rightarrow> (panic + (u64 \<times> 'f Zipf)) option" where
  "Zipf_Next fo z = Zipf_Nth fo z (z_idx z + 1)"

text \<open>A history of calls on one \<open>Zipf\<close>, and the receiver after it.\<close>

datatype call = CallNext | CallNth u64

fun Zipf_run :: "'f float_ops \<Rightarrow> 'f Zipf \<Rightarrow> call list \<Rightarrow> (panic + 'f Zipf) option" where
  "Zipf_run fo z [] = Some (Inr z)"
| "Zipf_run fo z (c # cs) =
     (case (case c of CallNext \<Rightarrow> Zipf_Next fo z | CallNth n \<Rightarrow> Zipf_Nth fo z n) of
        None \<Rightarrow> None
      | Some (Inl e) \<Rightarrow> Some (Inl e)
      | Some (Inr (r, z')) \<Rightarrow> Zipf_run fo z' cs)"

text \<open>
  Exact real arithmetic in place of the rounded operations. It serves to evaluate the
  sampler at concrete inputs whose intermediate values lie far from every rounding
  boundary. Conversion to \<open>uint64\<close> truncates towards zero.
\<close>

definition real_ops :: "real float_ops" where
  "real_ops =
     \<lparr>f_isNaN = (\<lambda>x. False), f_le = (\<le>), f_lt = (<),
      f_add = (+), f_sub = (-), f_mul = (*), f_div = (/), f_neg = uminus,
      f_exp = exp, f_log = ln, f_floor = (\<lambda>x. of_int \<lfloor>x\<rfloor>), f_lit = (\<lambda>x. x),
      f_of_u64 = (\<lambda>w. real (unat w)),
      f_to_u64 = (\<lambda>x. word_of_int (if 0 \<le> x then \<lfloor>x\<rfloor> else \<lceil>x\<rceil>))\<rparr>"

subsection \<open>The permutation as a composition of rounds\<close>

text \<open>
  What one round of \<open>nextValue\<close> computes, without the cache: the block fetched for the
  pair represented by \<open>xCaret\<close> in round \<open>i\<close> (the high word of the offset has been
  incremented \<open>i div 128\<close> times by then), the round as a function of \<open>x\<close>, and all rounds
  in order.
\<close>

definition roundBlock :: "Sequence \<Rightarrow> u32 \<Rightarrow> nat \<Rightarrow> u64 \<Rightarrow> Uint128" where
  "roundBlock s seed i xCaret =
     s \<lparr>Lo = xCaret, Hi = Hi (OffsetFor SequencePermutationF seed 0 0) + of_nat (i div 128)\<rparr>"

definition roundF :: "Sequence \<Rightarrow> u32 \<Rightarrow> u64 \<Rightarrow> u64 list \<Rightarrow> nat \<Rightarrow> u64 \<Rightarrow> u64" where
  "roundF s seed m ks i x =
     (let xPrime = (ks ! i + m - x) mod m;
          xCaret = (if xPrime > x then xPrime else x)
      in if Bit (roundBlock s seed i xCaret) (of_nat i) \<noteq> 0 then xPrime else x)"

definition permF :: "Sequence \<Rightarrow> u32 \<Rightarrow> u64 \<Rightarrow> u64 list \<Rightarrow> nat \<Rightarrow> u64 \<Rightarrow> u64" where
  "permF s seed m ks rounds x = fold (roundF s seed m ks) [0..<rounds] x"

text \<open>
  The invariant of the loop of \<open>nextValue\<close> at the head of round \<open>i\<close>: \<open>p.bits\<close> is the block
  for \<open>prev\<close> at the current high word, unless \<open>prev\<close> is the impossible value \<open>max + 1\<close>.
\<close>

definition cache_inv :: "Sequence \<Rightarrow> u32 \<Rightarrow> u64 \<Rightarrow> nat \<Rightarrow> loop_state \<Rightarrow> bool" where
  "cache_inv s seed m i st \<longleftrightarrow>
     ls_x st < m \<and>
     Hi (ls_offset st) = Hi (OffsetFor SequencePermutationF seed 0 0)
                          + of_nat (if i = 0 then 0 else (i - 1) div 128) \<and>
     (ls_prev st = m + 1 \<or> ls_bits st = s \<lparr>Lo = ls_prev st, Hi = Hi (ls_offset st)\<rparr>)"

text \<open>What \<open>NewPermutation\<close> establishes and no method changes.\<close>

definition wellformed :: "Permutation \<Rightarrow> bool" where
  "wellformed p \<longleftrightarrow>
     0 <s p_max p \<and> p_rounds p \<le> 384 \<and> length (p_k p) = p_rounds p \<and>
     (\<forall>j < p_rounds p. p_k p ! j < p_max p) \<and> (p_rounds p = 0 \<or> p_src p \<noteq> None)"

text \<open>The permutation a \<open>Permutation\<close> value stands for.\<close>

definition permOf :: "Permutation \<Rightarrow> u64 \<Rightarrow> u64" where
  "permOf p x = permF (the (p_src p)) (p_permSeed p) (p_max p) (p_k p) (p_rounds p) x"

text \<open>
  The decision oracle in the words of the specification (section 4.5): the bit at
  position \<open>r mod 128\<close> of the block at \<open>offset_for(PermutationF, permSeed, r/128, x)\<close>;
  the round and the permutation built on it.
\<close>

definition decision_spec :: "Sequence \<Rightarrow> u32 \<Rightarrow> nat \<Rightarrow> u64 \<Rightarrow> bool" where
  "decision_spec s seed r x =
     bit128 (s (OffsetFor SequencePermutationF seed (of_nat (r div 128)) x)) (r mod 128)"

definition round_spec :: "Sequence \<Rightarrow> u32 \<Rightarrow> u64 \<Rightarrow> u64 list \<Rightarrow> nat \<Rightarrow> u64 \<Rightarrow> u64" where
  "round_spec s seed m ks r x =
     (let xPrime = (ks ! r + m - x) mod m;
          xCaret = max x xPrime
      in if decision_spec s seed r xCaret then xPrime else x)"

definition perm_spec :: "Sequence \<Rightarrow> u32 \<Rightarrow> u64 \<Rightarrow> u64 list \<Rightarrow> nat \<Rightarrow> u64 \<Rightarrow> u64" where
  "perm_spec s seed m ks rounds x = fold (round_spec s seed m ks) [0..<rounds] x"

subsection \<open>Concrete inputs\<close>

text \<open>Sequences used to run the model: each is a legal implementation of \<open>BitsAt\<close>.\<close>

definition zeroSeq :: Sequence where
  "zeroSeq = (\<lambda>offset. \<lparr>Lo = 0, Hi = 0\<rparr>)"

definition oneSeq :: Sequence where
  "oneSeq = (\<lambda>offset. \<lparr>Lo = 1, Hi = 0\<rparr>)"

definition onesSeq :: Sequence where
  "onesSeq = (\<lambda>offset. \<lparr>Lo = - 1, Hi = - 1\<rparr>)"

definition mixSeq :: Sequence where
  "mixSeq = (\<lambda>offset. \<lparr>Lo = 5 * Lo offset + 1, Hi = Hi offset\<rparr>)"

definition eighthSeq :: Sequence where
  "eighthSeq = (\<lambda>offset. \<lparr>Lo = 2 ^ 50, Hi = 0\<rparr>)"

text \<open>The \<open>Zipf\<close> with \<open>q = 2\<close>, \<open>v = 1\<close>, \<open>max = 1\<close>, seed 0 over \<open>eighthSeq\<close>, in exact arithmetic.\<close>

definition zipfEx :: "real Zipf" where
  "zipfEx =
     \<lparr>z_src = Some eighthSeq, z_seed = 0, z_q = 2, z_v = 1, z_max = 1,
      z_oneMinusQ = - 1, z_oneOverOneMinusQ = - 1, z_hImaxOneHalf = - (2 / 5),
      z_hX0MinusHImaxOneHalf = - (19 / 15), z_s = 6 / 13, z_idx = 0\<rparr>"

section \<open>Uint128 arithmetic\<close>

lemma val128_less: "val128 u < 2 ^ 128"
proof -
  have "unat (Hi u) < 2 ^ 64" "unat (Lo u) < 2 ^ 64"
    using unsigned_less [of "Hi u", where ?'a = nat] unsigned_less [of "Lo u", where ?'a = nat]
    by simp_all
  then show ?thesis unfolding val128_def by simp
qed

text \<open>The carry test of \<open>Add\<close>: the low word wrapped exactly when the sum is below an operand.\<close>

lemma carry_iff:
  fixes a b :: u64
  shows "a + b < b \<longleftrightarrow> 2 ^ 64 \<le> unat a + unat b"
proof -
  have la: "unat a < 2 ^ 64" and lb: "unat b < 2 ^ 64"
    using unsigned_less [of a, where ?'a = nat] unsigned_less [of b, where ?'a = nat] by simp_all
  have s: "unat (a + b) = (unat a + unat b) mod 2 ^ 64"
    by (simp add: unat_word_ariths)
  show ?thesis
  proof (cases "unat a + unat b < 2 ^ 64")
    case True
    then have "unat (a + b) = unat a + unat b" using s by simp
    then show ?thesis using True by (simp add: word_less_nat_alt)
  next
    case False
    then have "unat (a + b) = unat a + unat b - 2 ^ 64"
      using s la lb by (simp add: mod_if)
    then show ?thesis using False la lb by (simp add: word_less_nat_alt)
  qed
qed

lemma split_mod_sq:
  fixes h x M :: nat
  assumes "x < M"
  shows "(h * M + x) mod (M * M) = (h mod M) * M + x"
proof -
  have "(h * M + x) mod (M * M) = M * ((h * M + x) div M mod M) + (h * M + x) mod M"
    by (simp add: mod_mult2_eq)
  also have "(h * M + x) div M = h" using assms by simp
  also have "(h * M + x) mod M = x" using assms by simp
  finally show ?thesis by (simp add: ac_simps)
qed

text \<open>\<open>Add\<close> is addition modulo \<open>2^128\<close>.\<close>

lemma Add_val: "val128 (Add u v) = (val128 u + val128 v) mod 2 ^ 128"
proof -
  define M :: nat where "M = 2 ^ 64"
  define a b c d where "a = unat (Lo u)" and "b = unat (Lo v)"
    and "c = unat (Hi u)" and "d = unat (Hi v)"
  have bounds: "a < M" "b < M" "c < M" "d < M"
    using unsigned_less [of "Lo u", where ?'a = nat] unsigned_less [of "Lo v", where ?'a = nat]
      unsigned_less [of "Hi u", where ?'a = nat] unsigned_less [of "Hi v", where ?'a = nat]
    by (simp_all add: a_def b_def c_def d_def M_def)
  have MM: "(2::nat) ^ 128 = M * M" by (simp add: M_def)
  have lo: "unat (Lo u + Lo v) = (a + b) mod M"
    by (simp add: unat_word_ariths a_def b_def M_def)
  have vu: "val128 u = c * M + a" and vv: "val128 v = d * M + b"
    by (simp_all add: val128_def a_def b_def c_def d_def M_def)
  show ?thesis
  proof (cases "a + b < M")
    case True
    then have nc: "\<not> (Lo u + Lo v < Lo v)"
      by (simp add: carry_iff a_def b_def M_def)
    have "val128 (Add u v) = ((c + d) mod M) * M + (a + b)"
      using nc True lo
      by (simp add: Add_def Let_def val128_def unat_word_ariths c_def d_def M_def)
    also have "\<dots> = ((c + d) * M + (a + b)) mod (M * M)"
      using split_mod_sq [OF True, of "c + d"] by simp
    also have "(c + d) * M + (a + b) = val128 u + val128 v"
      by (simp add: vu vv algebra_simps)
    finally show ?thesis by (simp only: MM)
  next
    case False
    then have cy: "Lo u + Lo v < Lo v"
      by (simp add: carry_iff a_def b_def M_def)
    have small: "a + b - M < M" using bounds by simp
    have lo': "(a + b) mod M = a + b - M"
      using False bounds by (simp add: mod_if)
    have "unat (Hi u + 1 + Hi v) = (c + 1 + d) mod M"
      by (simp add: unat_word_ariths c_def d_def M_def mod_simps)
    then have "val128 (Add u v) = ((c + 1 + d) mod M) * M + (a + b - M)"
      using cy lo lo'
      by (simp add: Add_def Let_def val128_def M_def)
    also have "\<dots> = ((c + 1 + d) * M + (a + b - M)) mod (M * M)"
      using split_mod_sq [OF small, of "c + 1 + d"] by simp
    also have "(c + 1 + d) * M + (a + b - M) = val128 u + val128 v"
      using False by (simp add: vu vv algebra_simps)
    finally show ?thesis by (simp only: MM)
  qed
qed

text \<open>
  Claim C4: \<open>x.Add(y)\<close> leaves \<open>x\<close> equal to \<open>(x + y) mod 2^128\<close> and \<open>x.Sub(y)\<close> leaves \<open>x\<close>
  equal to \<open>(x - y) mod 2^128\<close>. \<open>Add\<close> does (lemma \<open>Add_val\<close>); \<open>Sub\<close> does not: it
  borrows when the new low word exceeds the operand's low word, where a borrow is
  due when the new low word exceeds the old one. At \<open>x = 5\<close>, \<open>y = 2\<close> no borrow is due,
  the code borrows, and the result is \<open>2^128 - 2^64 + 3\<close> where \<open>5 - 2 = 3\<close>.
\<close>

theorem C4_Sub_spurious_borrow:
  "Sub \<lparr>Lo = 5, Hi = 0\<rparr> \<lparr>Lo = 2, Hi = 0\<rparr> = \<lparr>Lo = 3, Hi = - 1\<rparr> \<and>
   val128 (Sub \<lparr>Lo = 5, Hi = 0\<rparr> \<lparr>Lo = 2, Hi = 0\<rparr>) = 2 ^ 128 - 2 ^ 64 + 3 \<and>
   (val128 \<lparr>Lo = 5, Hi = 0\<rparr> + 2 ^ 128 - val128 \<lparr>Lo = 2, Hi = 0\<rparr>) mod 2 ^ 128 = 3"
  by (simp add: Sub_def val128_def unsigned_minus_1_eq_mask mask_eq_exp_minus_1)

text \<open>
  Claim C8: the method \<open>u.Mask(n)\<close> clears every bit of \<open>u\<close> at position \<open>\<ge> n\<close>, and for
  \<open>n < 64\<close> zeroes the high word. For \<open>n < 64\<close> the code masks the low word and leaves
  the high word as it was: with \<open>n = 0\<close> and only bit 64 set, bit 64 stays set.
\<close>

theorem C8_Mask_keeps_high_word:
  "Mask_method \<lparr>Lo = 0, Hi = 1\<rparr> 0 = \<lparr>Lo = 0, Hi = 1\<rparr> \<and>
   bit128 (Mask_method \<lparr>Lo = 0, Hi = 1\<rparr> 0) 64"
  by (simp add: Mask_method_def bit128_def)

section \<open>The permutation\<close>

lemma partner_nat:
  fixes K M X :: nat
  assumes "X < M" "K < M"
  shows "(K + M - (K + M - X) mod M) mod M = X"
proof -
  have le: "(K + M - X) mod M \<le> K + M" using assms by (simp add: trans_le_add2 less_imp_le)
  have "int ((K + M - (K + M - X) mod M) mod M)
        = (int K + int M - (int K + int M - int X) mod int M) mod int M"
    using assms le by (simp add: of_nat_mod of_nat_diff)
  also have "\<dots> = (int K + int M - (int K + int M - int X)) mod int M"
    by (simp add: mod_diff_right_eq)
  also have "\<dots> = int X" using assms by simp
  finally show ?thesis by simp
qed

lemma sint_of_small:
  fixes v :: u64
  assumes "uint v < 2 ^ 63"
  shows "sint v = uint v"
proof -
  have "- (2 ^ 63) \<le> (0::int)" by simp
  also have "0 \<le> uint v" by (rule uint_nonnegative)
  finally have "- (2 ^ 63) \<le> uint v" .
  then have "signed_take_bit 63 (uint v) = uint v"
    using assms by (rule signed_take_bit_int_eq_self)
  then show ?thesis by (simp add: sint_uint)
qed

lemma small_of_sint_nonneg:
  fixes v :: u64
  assumes "0 \<le> sint v"
  shows "uint v < 2 ^ 63"
proof (rule ccontr)
  assume "\<not> uint v < 2 ^ 63"
  then have "2 ^ 63 \<le> uint v" by simp
  then have "signed_take_bit 63 (uint v) \<le> uint v - 2 ^ Suc 63"
    by (rule signed_take_bit_int_less_eq)
  moreover have "(2::int) ^ Suc 63 = 2 ^ 64" by simp
  moreover have "uint v < 2 ^ 64" using uint_lt2p [of v] by simp
  moreover have "sint v = signed_take_bit 63 (uint v)" by (simp only: sint_uint) simp
  ultimately have "sint v < 0" by linarith
  then show False using assms by simp
qed

lemma spos_unat:
  fixes m :: u64
  assumes "0 <s m"
  shows "0 < unat m" and "unat m < 2 ^ 63"
proof -
  have s: "0 < sint m" using assms by (simp add: word_sless_alt)
  then have u: "uint m < 2 ^ 63" by (intro small_of_sint_nonneg) simp
  then have "sint m = uint m" by (rule sint_of_small)
  then have "0 < uint m" using s by simp
  then show "0 < unat m" by (simp only: unat_eq_nat_uint zero_less_nat_eq)
  show "unat m < 2 ^ 63" using u by transfer simp
qed

lemma signed_range_iff:
  fixes v mx :: u64
  assumes "0 <s mx"
  shows "(0 \<le>s v \<and> v <s mx) \<longleftrightarrow> v < mx"
proof -
  have mu: "uint mx < 2 ^ 63"
    using assms by (intro small_of_sint_nonneg) (simp add: word_sless_alt)
  then have ms: "sint mx = uint mx" by (rule sint_of_small)
  show ?thesis
  proof
    assume a: "0 \<le>s v \<and> v <s mx"
    then have "uint v < 2 ^ 63" by (intro small_of_sint_nonneg) (simp add: word_sle_eq)
    then have "sint v = uint v" by (rule sint_of_small)
    then show "v < mx" using a ms by (simp add: word_sless_alt word_less_def)
  next
    assume a: "v < mx"
    then have "uint v < uint mx" by (simp add: word_less_def)
    then have "uint v < 2 ^ 63" using mu by simp
    then have "sint v = uint v" by (rule sint_of_small)
    then show "0 \<le>s v \<and> v <s mx"
      using a ms by (simp add: word_sless_alt word_sle_eq word_less_def)
  qed
qed

lemma unat_partner:
  fixes m kk x :: u64
  assumes m: "0 <s m" and k: "kk < m" and x: "x < m"
  shows "unat ((kk + m - x) mod m) = (unat kk + unat m - unat x) mod unat m"
proof -
  have mb: "unat m < 2 ^ 63" using spos_unat [OF m] by simp
  have kb: "unat kk < unat m" using k by (simp add: word_less_nat_alt)
  have xb: "unat x < unat m" using x by (simp add: word_less_nat_alt)
  have a: "unat (kk + m) = unat kk + unat m"
    using kb mb by (simp add: unat_add_lem [THEN iffD1])
  have "x \<le> kk + m" using a xb by (simp add: word_le_nat_alt)
  then have "unat (kk + m - x) = unat kk + unat m - unat x"
    using a by (simp add: unat_sub)
  then show ?thesis by (simp add: unat_mod)
qed

lemma partner_less:
  fixes m kk x :: u64
  assumes m: "0 <s m"
  shows "(kk + m - x) mod m < m"
proof -
  have "0 < unat m" using spos_unat [OF m] by simp
  then show ?thesis by (simp add: word_less_nat_alt unat_mod)
qed

lemma partner_invol:
  fixes m kk x :: u64
  assumes m: "0 <s m" and k: "kk < m" and x: "x < m"
  shows "(kk + m - ((kk + m - x) mod m)) mod m = x"
proof -
  have x': "(kk + m - x) mod m < m" by (rule partner_less [OF m])
  have "unat ((kk + m - ((kk + m - x) mod m)) mod m)
        = (unat kk + unat m - (unat kk + unat m - unat x) mod unat m) mod unat m"
    by (simp add: unat_partner [OF m k x'] unat_partner [OF m k x])
  also have "\<dots> = unat x"
    using k x by (intro partner_nat) (simp_all add: word_less_nat_alt)
  finally show ?thesis by (simp add: word_unat_eq_iff)
qed

lemma roundF_less:
  assumes "0 <s m" "x < m"
  shows "roundF s seed m ks i x < m"
  using assms partner_less [OF assms(1)] by (simp add: roundF_def Let_def)

lemma roundF_alt:
  "roundF s seed m ks i x =
     (if Bit (roundBlock s seed i (max x ((ks ! i + m - x) mod m))) (of_nat i) \<noteq> 0
      then (ks ! i + m - x) mod m else x)"
proof -
  have "(if (ks ! i + m - x) mod m > x then (ks ! i + m - x) mod m else x)
        = max x ((ks ! i + m - x) mod m)"
    by (auto simp: max_def)
  then show ?thesis by (simp add: roundF_def Let_def)
qed

lemma roundF_invol:
  assumes m: "0 <s m" and k: "ks ! i < m" and x: "x < m"
  shows "roundF s seed m ks i (roundF s seed m ks i x) = x"
proof -
  define x' where "x' = (ks ! i + m - x) mod m"
  have bk: "(ks ! i + m - x') mod m = x"
    unfolding x'_def by (rule partner_invol [OF m k x])
  have fx: "roundF s seed m ks i x
            = (if Bit (roundBlock s seed i (max x x')) (of_nat i) \<noteq> 0 then x' else x)"
    unfolding x'_def by (rule roundF_alt)
  have fx': "roundF s seed m ks i x'
            = (if Bit (roundBlock s seed i (max x x')) (of_nat i) \<noteq> 0 then x else x')"
    by (simp only: roundF_alt [of s seed m ks i x'] bk max.commute [of x' x])
  show ?thesis
  proof (cases "Bit (roundBlock s seed i (max x x')) (of_nat i) \<noteq> 0")
    case True
    then show ?thesis by (simp add: fx fx')
  next
    case False
    then show ?thesis by (simp add: fx)
  qed
qed

lemma permF_less:
  assumes "0 <s m" "x < m"
  shows "permF s seed m ks rounds x < m"
  unfolding permF_def using assms(2)
  by (induction rounds arbitrary: x) (simp_all add: roundF_less [OF assms(1)])

lemma permF_inj:
  assumes m: "0 <s m" and k: "\<forall>j < rounds. ks ! j < m"
  shows "inj_on (permF s seed m ks rounds) {x. x < m}"
  using k
proof (induction rounds)
  case 0
  then show ?case by (simp add: permF_def inj_on_def)
next
  case (Suc r)
  then have IH: "inj_on (permF s seed m ks r) {x. x < m}" by simp
  have kr: "ks ! r < m" using Suc.prems by simp
  have step: "permF s seed m ks (Suc r) x = roundF s seed m ks r (permF s seed m ks r x)" for x
    by (simp add: permF_def)
  show ?case
  proof (rule inj_onI)
    fix x y assume x: "x \<in> {x. x < m}" and y: "y \<in> {x. x < m}"
      and eq: "permF s seed m ks (Suc r) x = permF s seed m ks (Suc r) y"
    have px: "permF s seed m ks r x < m" and py: "permF s seed m ks r y < m"
      using x y permF_less [OF m] by simp_all
    have "roundF s seed m ks r (roundF s seed m ks r (permF s seed m ks r x))
          = roundF s seed m ks r (roundF s seed m ks r (permF s seed m ks r y))"
      using eq by (simp add: step)
    then have "permF s seed m ks r x = permF s seed m ks r y"
      by (simp add: roundF_invol [OF m kr px] roundF_invol [OF m kr py])
    then show "x = y" using IH x y by (simp add: inj_on_def)
  qed
qed


lemma and_127_iff:
  assumes "i < 2 ^ 64"
  shows "((of_nat i :: u64) AND 127 = 0) \<longleftrightarrow> i mod 128 = 0"
proof -
  have "(127::u64) = mask 7" by (simp add: mask_eq_exp_minus_1)
  then have "(of_nat i :: u64) AND 127 = take_bit 7 (of_nat i)"
    by (simp add: take_bit_eq_mask)
  also have "\<dots> = of_nat i mod 128"
    by (simp add: take_bit_eq_mod)
  finally have e: "(of_nat i :: u64) AND 127 = of_nat i mod 128" .
  have "unat ((of_nat i :: u64) mod 128) = i mod 128"
    using assms by (simp add: unat_mod unat_of_nat)
  then have "((of_nat i :: u64) mod 128 = 0) \<longleftrightarrow> i mod 128 = 0"
    by (metis unat_0 unat_eq_0)
  then show ?thesis by (simp only: e)
qed

lemma bump_count:
  fixes i :: nat
  assumes "0 < i"
  shows "(if i mod 128 = 0 then (i - 1) div 128 + 1 else (i - 1) div 128) = i div 128"
proof -
  define q r where "q = i div 128" and "r = i mod 128"
  have i: "i = r + q * 128" and r: "r < 128" by (simp_all add: q_def r_def)
  show ?thesis
  proof (cases "r = 0")
    case True
    then have "0 < q" using assms i by simp
    then have "i - 1 = 127 + (q - 1) * 128" using i True by (simp add: algebra_simps)
    then have "(i - 1) div 128 = q - 1" by simp
    then show ?thesis using True \<open>0 < q\<close> by (simp add: q_def r_def)
  next
    case False
    then have "i - 1 = (r - 1) + q * 128" using i by simp
    moreover have "r - 1 < 128" using r by simp
    ultimately have "(i - 1) div 128 = q" by simp
    then show ?thesis using False by (simp add: q_def r_def)
  qed
qed

lemma succ_not_caret:
  fixes m c :: u64
  assumes "0 <s m" "c < m"
  shows "c \<noteq> m + 1"
proof -
  have "unat m < 2 ^ 63" using spos_unat [OF assms(1)] by simp
  then have "unat (m + 1) = unat m + 1"
    by (simp add: unat_add_lem [THEN iffD1])
  moreover have "unat c < unat m" using assms(2) by (simp add: word_less_nat_alt)
  ultimately show ?thesis by auto
qed

lemma Lo_update_conv: "(r::Uint128)\<lparr>Lo := a\<rparr> = \<lparr>Lo = a, Hi = Hi r\<rparr>"
  by (cases r) simp

lemma nextValue_round_unfold:
  assumes i: "i < length (p_k p)" and src: "p_src p = Some s"
  shows "nextValue_round p i st =
    Inr (let st1 = (if 0 < i \<and> (of_nat i :: u64) AND 127 = 0
      then st\<lparr>ls_offset := (ls_offset st)\<lparr>Hi := Hi (ls_offset st) + 1\<rparr>, ls_prev := p_max p + 1\<rparr>
      else st);
      x = ls_x st1;
      xPrime = (p_k p ! i + p_max p - x) mod p_max p;
      xCaret = (if xPrime > x then xPrime else x);
      st2 = (if xCaret \<noteq> ls_prev st1
      then st1\<lparr>ls_offset := (ls_offset st1)\<lparr>Lo := xCaret\<rparr>,
               ls_bits := s ((ls_offset st1)\<lparr>Lo := xCaret\<rparr>), ls_prev := xCaret\<rparr>
      else st1)
     in (if Bit (ls_bits st2) (of_nat i) \<noteq> 0 then st2\<lparr>ls_x := xPrime\<rparr> else st2))"
  using i unfolding nextValue_round_def BitsAt_def src Let_def
  by (simp split: if_splits)

lemma nextValue_round_ok:
  assumes m: "0 <s p_max p" and i: "i < length (p_k p)" and ib: "i < 2 ^ 64"
    and k: "p_k p ! i < p_max p" and src: "p_src p = Some s"
    and inv: "cache_inv s (p_permSeed p) (p_max p) i st"
  shows "\<exists>st'. nextValue_round p i st = Inr st' \<and>
           ls_x st' = roundF s (p_permSeed p) (p_max p) (p_k p) i (ls_x st) \<and>
           cache_inv s (p_permSeed p) (p_max p) (Suc i) st'"
proof -
  define base where "base = Hi (OffsetFor SequencePermutationF (p_permSeed p) 0 0)"
  define bump where "bump \<longleftrightarrow> 0 < i \<and> (of_nat i :: u64) AND 127 = 0"
  define st1 where "st1 = (if bump
      then st\<lparr>ls_offset := (ls_offset st)\<lparr>Hi := Hi (ls_offset st) + 1\<rparr>, ls_prev := p_max p + 1\<rparr>
      else st)"
  define x where "x = ls_x st1"
  define xPrime where "xPrime = (p_k p ! i + p_max p - x) mod p_max p"
  define xCaret where "xCaret = (if xPrime > x then xPrime else x)"
  define st2 where "st2 = (if xCaret \<noteq> ls_prev st1
      then st1\<lparr>ls_offset := (ls_offset st1)\<lparr>Lo := xCaret\<rparr>,
               ls_bits := s ((ls_offset st1)\<lparr>Lo := xCaret\<rparr>), ls_prev := xCaret\<rparr>
      else st1)"
  define st3 where "st3 = (if Bit (ls_bits st2) (of_nat i) \<noteq> 0 then st2\<lparr>ls_x := xPrime\<rparr> else st2)"
  have run: "nextValue_round p i st = Inr st3"
    using nextValue_round_unfold [OF i src, of st]
    by (simp only: Let_def st3_def st2_def st1_def x_def xPrime_def xCaret_def bump_def)
  have x1: "ls_x st1 = ls_x st" by (simp add: st1_def)
  have xm: "x < p_max p" and hi0: "Hi (ls_offset st) = base + of_nat (if i = 0 then 0 else (i - 1) div 128)"
    and cache0: "ls_prev st = p_max p + 1 \<or> ls_bits st = s \<lparr>Lo = ls_prev st, Hi = Hi (ls_offset st)\<rparr>"
    using inv unfolding cache_inv_def x_def x1 base_def by blast+
  have bump_iff: "bump \<longleftrightarrow> 0 < i \<and> i mod 128 = 0"
    by (simp add: bump_def and_127_iff [OF ib])
  have hi1: "Hi (ls_offset st1) = base + of_nat (i div 128)"
  proof (cases "i = 0")
    case True
    then show ?thesis using hi0 bump_iff by (simp add: st1_def)
  next
    case False
    then have pos: "0 < i" by simp
    show ?thesis
    proof (cases "i mod 128 = 0")
      case True
      then have "(i - 1) div 128 + 1 = i div 128" using bump_count [OF pos] by simp
      then have "(of_nat (i div 128) :: u64) = of_nat ((i - 1) div 128 + 1)"
        by simp
      then have "(of_nat ((i - 1) div 128) :: u64) + 1 = of_nat (i div 128)"
        by (simp only: of_nat_add of_nat_1)
      then show ?thesis using hi0 bump_iff pos True False by (simp add: st1_def add.assoc)
    next
      case F: False
      then have "(i - 1) div 128 = i div 128" using bump_count [OF pos] by simp
      then show ?thesis using hi0 bump_iff pos F False by (simp add: st1_def)
    qed
  qed
  have cache1: "ls_prev st1 = p_max p + 1 \<or> ls_bits st1 = s \<lparr>Lo = ls_prev st1, Hi = Hi (ls_offset st1)\<rparr>"
    using cache0 by (simp add: st1_def)
  have xpm: "xPrime < p_max p" unfolding xPrime_def by (rule partner_less [OF m])
  have xcm: "xCaret < p_max p" using xpm xm by (simp add: xCaret_def)
  have ne: "xCaret \<noteq> p_max p + 1" by (rule succ_not_caret [OF m xcm])
  have blk: "s ((ls_offset st1)\<lparr>Lo := xCaret\<rparr>) = roundBlock s (p_permSeed p) i xCaret"
    using hi1 by (simp add: roundBlock_def base_def Lo_update_conv)
  have bits2: "ls_bits st2 = roundBlock s (p_permSeed p) i xCaret"
  proof (cases "xCaret \<noteq> ls_prev st1")
    case True
    then show ?thesis by (simp add: st2_def blk)
  next
    case False
    then have eq: "ls_prev st1 = xCaret" by simp
    then have "ls_bits st1 = s \<lparr>Lo = xCaret, Hi = Hi (ls_offset st1)\<rparr>"
      using cache1 ne by auto
    also have "\<dots> = s ((ls_offset st1)\<lparr>Lo := xCaret\<rparr>)" by (simp add: Lo_update_conv)
    finally show ?thesis using False by (simp add: st2_def blk)
  qed
  have x2: "ls_x st2 = x" by (simp add: st2_def x_def)
  have hi2: "Hi (ls_offset st2) = base + of_nat (i div 128)" by (simp add: st2_def hi1)
  have prev2: "ls_prev st2 = xCaret" by (auto simp: st2_def)
  have cache2: "ls_bits st2 = s \<lparr>Lo = ls_prev st2, Hi = Hi (ls_offset st2)\<rparr>"
    by (simp add: bits2 prev2 hi2 roundBlock_def base_def)
  have rf: "roundF s (p_permSeed p) (p_max p) (p_k p) i x
            = (if Bit (roundBlock s (p_permSeed p) i xCaret) (of_nat i) \<noteq> 0 then xPrime else x)"
    by (simp only: roundF_def Let_def xPrime_def xCaret_def)
  have "ls_x st3 = roundF s (p_permSeed p) (p_max p) (p_k p) i x"
    by (simp add: st3_def bits2 x2 rf)
  then have x3: "ls_x st3 = roundF s (p_permSeed p) (p_max p) (p_k p) i (ls_x st)"
    by (simp only: x_def x1)
  have "ls_x st3 < p_max p" using xpm xm by (simp add: st3_def x2)
  moreover have "Hi (ls_offset st3) = base + of_nat (i div 128)" by (simp add: st3_def hi2)
  moreover have "ls_bits st3 = s \<lparr>Lo = ls_prev st3, Hi = Hi (ls_offset st3)\<rparr>"
    using cache2 by (simp add: st3_def)
  ultimately have "cache_inv s (p_permSeed p) (p_max p) (Suc i) st3"
    by (simp add: cache_inv_def base_def)
  then show ?thesis using run x3 by blast
qed


lemma nextValue_loop_ok:
  assumes wf: "wellformed p" and src: "p_src p = Some s"
  shows "i \<le> p_rounds p \<Longrightarrow> cache_inv s (p_permSeed p) (p_max p) i st \<Longrightarrow>
         \<exists>st'. nextValue_loop p i st = Inr st' \<and>
           ls_x st' = fold (roundF s (p_permSeed p) (p_max p) (p_k p)) [i..<p_rounds p] (ls_x st)"
proof (induction "p_rounds p - i" arbitrary: i st)
  case 0
  then have "i = p_rounds p" by simp
  then show ?case by (simp add: nextValue_loop.simps)
next
  case (Suc d)
  then have lt: "i < p_rounds p" by simp
  have m: "0 <s p_max p" and len: "length (p_k p) = p_rounds p"
    and kb: "\<forall>j < p_rounds p. p_k p ! j < p_max p" and rb: "p_rounds p \<le> 384"
    using wf by (simp_all add: wellformed_def)
  have il: "i < length (p_k p)" using lt len by simp
  have ib: "i < 2 ^ 64" using lt rb by simp
  have ki: "p_k p ! i < p_max p" using kb lt by simp
  obtain st1 where r: "nextValue_round p i st = Inr st1"
    and x1: "ls_x st1 = roundF s (p_permSeed p) (p_max p) (p_k p) i (ls_x st)"
    and inv1: "cache_inv s (p_permSeed p) (p_max p) (Suc i) st1"
    using nextValue_round_ok [OF m il ib ki src Suc.prems(2)] by blast
  have d: "d = p_rounds p - Suc i" using Suc.hyps(2) by simp
  have le: "Suc i \<le> p_rounds p" using lt by simp
  obtain st' where l: "nextValue_loop p (Suc i) st1 = Inr st'"
    and x': "ls_x st' = fold (roundF s (p_permSeed p) (p_max p) (p_k p)) [Suc i..<p_rounds p] (ls_x st1)"
    using Suc.hyps(1) [OF d le inv1] by blast
  have "nextValue_loop p i st = Inr st'"
    using lt r l by (simp add: nextValue_loop.simps [of p i st])
  moreover have "[i..<p_rounds p] = i # [Suc i..<p_rounds p]"
    using lt by (simp add: upt_conv_Cons)
  ultimately show ?case using x' x1 by simp
qed

lemma nextValue_loop_zero:
  assumes "p_rounds p = 0"
  shows "nextValue_loop p 0 st = Inr st"
  using assms by (simp add: nextValue_loop.simps)

lemma nextValue_ok:
  assumes wf: "wellformed p"
  shows "\<exists>b. nextValue p =
           Inr (fold (\<lambda>i. roundF (the (p_src p)) (p_permSeed p) (p_max p) (p_k p) i) [0..<p_rounds p]
                  (p_counter p mod p_max p),
                p\<lparr>p_counter := p_counter p mod p_max p + 1, p_bits := b\<rparr>)"
proof -
  have m: "0 <s p_max p" using wf by (simp add: wellformed_def)
  then have m0: "p_max p \<noteq> 0" by auto
  let ?c = "p_counter p mod p_max p"
  define st where "st = \<lparr>ls_x = ?c, ls_prev = p_max p + 1,
                  ls_offset = OffsetFor SequencePermutationF (p_permSeed p) 0 0,
                  ls_bits = p_bits p\<rparr>"
  have nv: "nextValue p = (case nextValue_loop p 0 st of
             Inl e \<Rightarrow> Inl e
           | Inr st' \<Rightarrow> Inr (ls_x st', p\<lparr>p_counter := ?c + 1, p_bits := ls_bits st'\<rparr>))"
    using m0 by (simp add: nextValue_def Let_def st_def)
  have cm: "?c < p_max p"
    using spos_unat(1) [OF m] by (simp add: word_less_nat_alt unat_mod)
  show ?thesis
  proof (cases "p_rounds p = 0")
    case True
    have "nextValue p = Inr (?c, p\<lparr>p_counter := ?c + 1, p_bits := p_bits p\<rparr>)"
      using nv nextValue_loop_zero [OF True, of st] by (simp add: st_def)
    then show ?thesis using True by (intro exI [of _ "p_bits p"]) simp
  next
    case False
    then obtain s where src: "p_src p = Some s" using wf by (auto simp: wellformed_def)
    have inv: "cache_inv s (p_permSeed p) (p_max p) 0 st"
      using cm by (simp add: cache_inv_def st_def)
    obtain st' where l: "nextValue_loop p 0 st = Inr st'"
      and x': "ls_x st' = fold (roundF s (p_permSeed p) (p_max p) (p_k p)) [0..<p_rounds p] (ls_x st)"
      using nextValue_loop_ok [OF wf src _ inv] by blast
    show ?thesis using nv l x' src by (intro exI [of _ "ls_bits st'"]) (simp add: st_def)
  qed
qed


lemma nextValue_permOf:
  assumes wf: "wellformed p"
  shows "\<exists>b. nextValue p =
           Inr (permOf p (p_counter p mod p_max p),
                p\<lparr>p_counter := p_counter p mod p_max p + 1, p_bits := b\<rparr>)"
  using nextValue_ok [OF wf] by (simp add: permOf_def permF_def)

lemma word_mod_less_self:
  fixes c m :: u64
  assumes "c < m"
  shows "c mod m = c"
proof -
  have "unat (c mod m) = unat c"
    using assms by (simp add: unat_mod word_less_nat_alt)
  then show ?thesis by (simp add: word_unat_eq_iff)
qed

lemma Permutation_Nexts_ok:
  "wellformed p \<Longrightarrow> unat (p_counter p) + n \<le> unat (p_max p) \<Longrightarrow>
   \<exists>p'. Permutation_Nexts n p =
          Inr (map (\<lambda>j. permOf p (p_counter p + of_nat j)) [0..<n], p')"
proof (induction n arbitrary: p)
  case 0
  then show ?case by simp
next
  case (Suc n)
  let ?c = "p_counter p" and ?m = "p_max p"
  have m: "0 <s ?m" using Suc.prems(1) by (simp add: wellformed_def)
  have mb: "unat ?m < 2 ^ 63" using spos_unat [OF m] by simp
  have cl: "unat ?c < unat ?m" using Suc.prems(2) by simp
  then have cm: "?c < ?m" by (simp add: word_less_nat_alt)
  have cmod: "?c mod ?m = ?c" by (rule word_mod_less_self [OF cm])
  obtain b where nv: "nextValue p = Inr (permOf p ?c, p\<lparr>p_counter := ?c + 1, p_bits := b\<rparr>)"
    using nextValue_permOf [OF Suc.prems(1)] cmod by auto
  define p1 where "p1 = p\<lparr>p_counter := ?c + 1, p_bits := b\<rparr>"
  have wf1: "wellformed p1" using Suc.prems(1) by (simp add: wellformed_def p1_def)
  have c1: "p_counter p1 = ?c + 1" by (simp add: p1_def)
  have "unat (?c + 1) = unat ?c + 1"
    using cl mb by (simp add: unat_add_lem [THEN iffD1])
  then have bound: "unat (p_counter p1) + n \<le> unat (p_max p1)"
    using Suc.prems(2) by (simp add: p1_def)
  have same: "permOf p1 = permOf p" by (rule ext) (simp add: permOf_def p1_def)
  obtain p' where rest: "Permutation_Nexts n p1 =
      Inr (map (\<lambda>j. permOf p1 (p_counter p1 + of_nat j)) [0..<n], p')"
    using Suc.IH [OF wf1 bound] by blast
  have "Permutation_Nexts (Suc n) p =
      Inr (permOf p ?c # map (\<lambda>j. permOf p (?c + 1 + of_nat j)) [0..<n], p')"
    using nv rest by (simp add: Permutation_Next_def p1_def [symmetric] same c1)
  moreover have "map (\<lambda>j. permOf p (?c + of_nat j)) [0..<Suc n]
      = permOf p ?c # map (\<lambda>j. permOf p (?c + 1 + of_nat j)) [0..<n]"
    by (simp only: map_upt_Suc) (simp add: ac_simps)
  ultimately show ?case by auto
qed

lemma word_below_image:
  fixes m :: u64
  shows "(of_nat ` {0..<unat m} :: u64 set) = {x. x < m}"
proof
  show "(of_nat ` {0..<unat m} :: u64 set) \<subseteq> {x. x < m}"
  proof
    fix x :: u64 assume "x \<in> of_nat ` {0..<unat m}"
    then obtain j where j: "j < unat m" and x: "x = of_nat j" by auto
    have "unat m < 2 ^ 64" using unsigned_less [of m, where ?'a = nat] by simp
    then have "unat (of_nat j :: u64) = j" using j by (simp add: unat_of_nat)
    then show "x \<in> {x. x < m}" using j x by (simp add: word_less_nat_alt)
  qed
  show "{x. x < m} \<subseteq> (of_nat ` {0..<unat m} :: u64 set)"
  proof
    fix x :: u64 assume "x \<in> {x. x < m}"
    then have "unat x < unat m" by (simp add: word_less_nat_alt)
    moreover have "x = of_nat (unat x)" by simp
    ultimately show "x \<in> of_nat ` {0..<unat m}" by (metis atLeastLessThan_iff imageI zero_le)
  qed
qed

lemma of_nat_inj_below:
  fixes m :: u64
  shows "inj_on (of_nat :: nat \<Rightarrow> u64) {0..<unat m}"
proof (rule inj_onI)
  fix a b assume a: "a \<in> {0..<unat m}" and b: "b \<in> {0..<unat m}"
    and eq: "(of_nat a :: u64) = of_nat b"
  have "unat m < 2 ^ 64" using unsigned_less [of m, where ?'a = nat] by simp
  then have "unat (of_nat a :: u64) = a" "unat (of_nat b :: u64) = b"
    using a b by (simp_all add: unat_of_nat)
  then show "a = b" using eq by metis
qed

lemma permOf_bij:
  assumes wf: "wellformed p"
  shows "inj_on (permOf p) {x. x < p_max p}" and "permOf p ` {x. x < p_max p} = {x. x < p_max p}"
proof -
  have m: "0 <s p_max p" and kb: "\<forall>j < p_rounds p. p_k p ! j < p_max p"
    using wf by (simp_all add: wellformed_def)
  have "permOf p = permF (the (p_src p)) (p_permSeed p) (p_max p) (p_k p) (p_rounds p)"
    by (rule ext) (simp add: permOf_def)
  then show inj: "inj_on (permOf p) {x. x < p_max p}"
    using permF_inj [OF m kb] by simp
  have sub: "permOf p ` {x. x < p_max p} \<subseteq> {x. x < p_max p}"
    using permF_less [OF m] by (auto simp: permOf_def)
  show "permOf p ` {x. x < p_max p} = {x. x < p_max p}"
    by (rule endo_inj_surj [OF _ sub inj]) simp
qed

lemma Permutation_cycle:
  assumes wf: "wellformed p" and c0: "p_counter p = 0"
  shows "\<exists>vs p'. Permutation_Nexts (unat (p_max p)) p = Inr (vs, p') \<and> distinct vs \<and>
           set vs = {v. 0 \<le>s v \<and> v <s p_max p}"
proof -
  let ?n = "unat (p_max p)"
  have m: "0 <s p_max p" using wf by (simp add: wellformed_def)
  obtain p' where run: "Permutation_Nexts ?n p = Inr (map (\<lambda>j. permOf p (of_nat j)) [0..<?n], p')"
    using Permutation_Nexts_ok [OF wf, of ?n] c0 by auto
  let ?vs = "map (\<lambda>j. permOf p (of_nat j)) [0..<?n]"
  have vs: "?vs = map (permOf p) (map of_nat [0..<?n])" by simp
  have d1: "distinct (map (of_nat :: nat \<Rightarrow> u64) [0..<?n])"
    using of_nat_inj_below [of "p_max p"] by (simp add: distinct_map)
  have s1: "set (map (of_nat :: nat \<Rightarrow> u64) [0..<?n]) = {x. x < p_max p}"
    using word_below_image [of "p_max p"] by simp
  have "distinct ?vs"
    unfolding vs using d1 s1 permOf_bij(1) [OF wf] by (simp only: distinct_map)
  moreover have "set ?vs = {x. x < p_max p}"
    unfolding vs using s1 permOf_bij(2) [OF wf] by (simp only: set_map)
  moreover have "{x. x < p_max p} = {v. 0 \<le>s v \<and> v <s p_max p}"
    using signed_range_iff [OF m] by auto
  ultimately show ?thesis using run by auto
qed

lemma fillK_ok:
  "fillK s seed mm m rounds i ks = Some ks' \<Longrightarrow> length ks = rounds \<Longrightarrow> 0 < unat m \<Longrightarrow>
   (\<forall>j<i. j < rounds \<longrightarrow> ks ! j < m) \<Longrightarrow>
   length ks' = rounds \<and> (\<forall>j<rounds. ks' ! j < m)"
proof (induction s seed mm m rounds i ks rule: fillK.induct)
  case (1 s seed mm m rounds i ks)
  show ?case
  proof (cases "i < rounds")
    case False
    then have "ks' = ks" using "1.prems"(1) by (simp add: fillK.simps [of s seed mm m rounds i ks])
    then show ?thesis using False "1.prems" by auto
  next
    case True
    then obtain off where off: "skipRejected s mm (OffsetFor SequencePermutationK seed 0 (of_nat i)) = Some off"
      and rec: "fillK s seed mm m rounds (i + 1) (ks[i := Lo (s off) mod m]) = Some ks'"
      using "1.prems"(1)
      by (simp add: fillK.simps [of s seed mm m rounds i ks] split: option.splits)
    have lt: "Lo (s off) mod m < m"
      using "1.prems"(3) by (simp add: word_less_nat_alt unat_mod)
    have len: "length (ks[i := Lo (s off) mod m]) = rounds" using "1.prems"(2) by simp
    have pre: "\<forall>j<i + 1. j < rounds \<longrightarrow> ks[i := Lo (s off) mod m] ! j < m"
    proof (intro allI impI)
      fix j assume j: "j < i + 1" "j < rounds"
      show "ks[i := Lo (s off) mod m] ! j < m"
      proof (cases "j = i")
        case True
        then show ?thesis using lt "1.prems"(2) j by simp
      next
        case False
        then have "j < i" using j by simp
        then show ?thesis using "1.prems"(4) j False by simp
      qed
    qed
    show ?thesis
      by (rule "1.IH" [OF True off rec len "1.prems"(3) pre])
  qed
qed

lemma NewPermutation_fields:
  assumes "NewPermutation mx seed src = Some (Inr (Some p, e))"
  shows "e = None" and "p_max p = mx" and "p_permSeed p = seed" and "p_src p = src"
    and "p_counter p = 0" and "p_rounds p = 6 * (64 - LeadingZeros64 mx)"
    and "\<not> mx <s 1"
  using assms
  by (auto simp: NewPermutation_def Let_def split: if_splits option.splits)

lemma NewPermutation_wellformed:
  assumes np: "NewPermutation mx seed src = Some (Inr (Some p, e))"
  shows "wellformed p"
proof -
  note f = NewPermutation_fields [OF np]
  have "1 \<le> sint mx" using f(7) by (simp add: word_sless_alt)
  then have m: "0 <s mx" by (simp add: word_sless_alt)
  have um: "0 < unat mx" using spos_unat(1) [OF m] .
  have rb: "p_rounds p \<le> 384" using f(6) by simp
  have ks: "length (p_k p) = p_rounds p \<and> (\<forall>j<p_rounds p. p_k p ! j < mx)"
  proof (cases "p_rounds p = 0")
    case True
    then show ?thesis using np f(6)
      by (auto simp: NewPermutation_def Let_def split: if_splits option.splits)
  next
    case False
    then obtain s where "fillK s seed ((- 1) div mx * mx) mx (p_rounds p) 0 (replicate (p_rounds p) 0) = Some (p_k p)"
      using np f(6)
      by (auto simp: NewPermutation_def Let_def split: if_splits option.splits)
    then show ?thesis using fillK_ok [OF _ _ um] by simp
  qed
  have src: "p_rounds p = 0 \<or> p_src p \<noteq> None"
    using np by (auto simp: NewPermutation_def Let_def split: if_splits option.splits)
  show ?thesis using m rb ks src f(2) by (simp add: wellformed_def)
qed

subsection \<open>Running the constructor\<close>

lemma skipRejected_accept:
  assumes "Lo (s offset) < mm"
  shows "skipRejected s mm offset = Some offset"
  using assms by (simp add: skipRejected.simps [of s mm offset] not_le [symmetric])

lemma fillK_no_reject:
  assumes acc: "\<forall>j<rounds. Lo (s (OffsetFor SequencePermutationK seed 0 (of_nat j))) < mm"
  shows "i \<le> rounds \<Longrightarrow> length ks = rounds \<Longrightarrow>
     fillK s seed mm m rounds i ks =
       Some (take i ks @ map (\<lambda>j. Lo (s (OffsetFor SequencePermutationK seed 0 (of_nat j))) mod m) [i..<rounds])"
proof (induction "rounds - i" arbitrary: i ks)
  case 0
  then show ?case by (subst fillK.simps) simp
next
  case (Suc d)
  then have lt: "i < rounds" by simp
  let ?off = "OffsetFor SequencePermutationK seed 0 (of_nat i)"
  let ?v = "Lo (s ?off) mod m"
  have sk: "skipRejected s mm ?off = Some ?off"
    using acc lt by (intro skipRejected_accept) simp
  have d: "d = rounds - (i + 1)" using Suc.hyps(2) by simp
  have step: "fillK s seed mm m rounds i ks = fillK s seed mm m rounds (i + 1) (ks[i := ?v])"
    using lt sk by (simp add: fillK.simps [of s seed mm m rounds i ks])
  have "fillK s seed mm m rounds (i + 1) (ks[i := ?v]) =
      Some (take (i + 1) (ks[i := ?v]) @
        map (\<lambda>j. Lo (s (OffsetFor SequencePermutationK seed 0 (of_nat j))) mod m) [i + 1..<rounds])"
    using Suc.hyps(1) [OF d] lt Suc.prems(2) by simp
  moreover have "take (i + 1) (ks[i := ?v]) = take i ks @ [?v]"
    using lt Suc.prems(2) by (simp add: take_Suc_conv_app_nth)
  moreover have "[i..<rounds] = i # [i + 1..<rounds]"
    using lt by (simp add: upt_conv_Cons)
  ultimately show ?case using step by simp
qed

lemma LeadingZeros64_3: "LeadingZeros64 3 = 62"
  by (simp add: LeadingZeros64_def upt_rec [of _ "numeral n" for n])

lemma K_mixSeq_3:
  "map (\<lambda>j. Lo (mixSeq (OffsetFor SequencePermutationK 0 0 (of_nat j))) mod 3) [0..<12]
   = [1, 0, 2, 1, 0, 2, 1, 0, 2, 1, 0, 2]"
  by (simp add: mixSeq_def OffsetFor_def upt_rec [of _ "numeral n" for n])


lemma NewPermutation_no_reject:
  assumes mx: "\<not> mx <s 1" and r: "rounds = 6 * (64 - LeadingZeros64 mx)" and r0: "rounds \<noteq> 0"
    and acc: "\<forall>j<rounds. Lo (s (OffsetFor SequencePermutationK seed 0 (of_nat j))) < (- 1) div mx * mx"
  shows "NewPermutation mx seed (Some s) =
     Some (Inr (Some \<lparr>p_src = Some s, p_permSeed = seed, p_max = mx, p_counter = 0,
                        p_rounds = rounds, p_bits = \<lparr>Lo = 0, Hi = 0\<rparr>,
                        p_k = map (\<lambda>j. Lo (s (OffsetFor SequencePermutationK seed 0 (of_nat j))) mod mx)
                                [0..<rounds]\<rparr>, None))"
proof -
  have "fillK s seed ((- 1) div mx * mx) mx rounds 0 (replicate rounds 0) =
      Some (map (\<lambda>j. Lo (s (OffsetFor SequencePermutationK seed 0 (of_nat j))) mod mx) [0..<rounds])"
    using fillK_no_reject [OF acc, of 0 "replicate rounds 0" mx] by simp
  then show ?thesis
    using mx r0 unfolding NewPermutation_def Let_def r [symmetric] by simp
qed

lemma all_less_list_all: "(\<forall>j<n. P j) \<longleftrightarrow> list_all P [0..<n]"
  by (auto simp: list_all_iff)

lemma NewPermutation_3:
  "NewPermutation 3 0 (Some mixSeq) =
     Some (Inr (Some \<lparr>p_src = Some mixSeq, p_permSeed = 0, p_max = 3, p_counter = 0,
                        p_rounds = 12, p_bits = \<lparr>Lo = 0, Hi = 0\<rparr>,
                        p_k = [1, 0, 2, 1, 0, 2, 1, 0, 2, 1, 0, 2]\<rparr>, None))"
proof -
  have acc: "\<forall>j<12. Lo (mixSeq (OffsetFor SequencePermutationK 0 0 (of_nat j))) < (- 1) div 3 * 3"
    unfolding all_less_list_all
    by (simp add: mixSeq_def OffsetFor_def upt_rec [of _ "numeral n" for n])
  show ?thesis
    using NewPermutation_no_reject [of 3 12 mixSeq 0, OF _ _ _ acc] K_mixSeq_3
    by (simp add: LeadingZeros64_3 word_sless_alt)
qed

text \<open>
  Claim C1: the values of \<open>max\<close> calls of \<open>Next\<close> on a freshly constructed \<open>Permutation\<close>
  are every value in \<open>[0, max)\<close> exactly once: no call panics, the values are pairwise
  distinct, and they are exactly the \<open>int64\<close> values \<open>v\<close> with \<open>0 \<le> v < max\<close>.
\<close>

theorem C1_permutation_bijective:
  assumes "NewPermutation mx seed src = Some (Inr (Some p, e))"
  shows "\<exists>vs p'. Permutation_Nexts (unat mx) p = Inr (vs, p') \<and> distinct vs \<and>
           set vs = {v. 0 \<le>s v \<and> v <s mx}"
  using Permutation_cycle [OF NewPermutation_wellformed [OF assms] NewPermutation_fields(5) [OF assms]]
  by (simp add: NewPermutation_fields(2) [OF assms])

theorem C1_permutation_bijective_witness:
  "\<exists>vs p'. Permutation_Nexts (unat (3 :: i64))
       \<lparr>p_src = Some mixSeq, p_permSeed = 0, p_max = 3, p_counter = 0,
        p_rounds = 12, p_bits = \<lparr>Lo = 0, Hi = 0\<rparr>,
        p_k = [1, 0, 2, 1, 0, 2, 1, 0, 2, 1, 0, 2]\<rparr> = Inr (vs, p') \<and> distinct vs \<and>
     set vs = {v. 0 \<le>s v \<and> v <s (3 :: i64)}"
  by (rule C1_permutation_bijective [OF NewPermutation_3])

lemma Permutation_Nth_ok:
  assumes wf: "wellformed p" and n: "n < p_max p"
  shows "\<exists>p1. Permutation_Nth p n = Inr (permOf p n, p1)"
proof -
  have m: "0 <s p_max p" using wf by (simp add: wellformed_def)
  have "0 \<le>s n" using signed_range_iff [OF m, of n] n by simp
  then have nn: "\<not> n <s 0" by (simp add: word_sless_alt word_sle_eq)
  let ?p = "p\<lparr>p_counter := n\<rparr>"
  have wf': "wellformed ?p" using wf by (simp add: wellformed_def)
  have same: "permOf ?p = permOf p" by (rule ext) (simp add: permOf_def)
  have "n mod p_max p = n" by (rule word_mod_less_self [OF n])
  then obtain b where "nextValue ?p = Inr (permOf p n, ?p\<lparr>p_counter := n + 1, p_bits := b\<rparr>)"
    using nextValue_permOf [OF wf'] same by auto
  then show ?thesis using nn by (simp add: Permutation_Nth_def)
qed

text \<open>
  Claim C2: for \<open>0 \<le> N < max\<close>, \<open>Nth(N)\<close> on a freshly constructed \<open>Permutation\<close> returns
  the value of the \<open>(N+1)\<close>-th call of \<open>Next\<close> on a \<open>Permutation\<close> constructed from the same
  \<open>max\<close>, seed and sequence.
\<close>

theorem C2_seek_equals_iterate:
  assumes np: "NewPermutation mx seed src = Some (Inr (Some p, e))"
    and n0: "0 \<le>s n" and n1: "n <s mx"
  shows "\<exists>v p1 vs p2. Permutation_Nth p n = Inr (v, p1) \<and>
           Permutation_Nexts (unat n + 1) p = Inr (vs, p2) \<and>
           length vs = unat n + 1 \<and> last vs = v"
proof -
  have wf: "wellformed p" by (rule NewPermutation_wellformed [OF np])
  note f = NewPermutation_fields [OF np]
  have m: "0 <s p_max p" using wf by (simp add: wellformed_def)
  have n: "n < p_max p" using signed_range_iff [OF m, of n] n0 n1 f(2) by simp
  obtain p1 where nth: "Permutation_Nth p n = Inr (permOf p n, p1)"
    using Permutation_Nth_ok [OF wf n] by blast
  have "unat n + 1 \<le> unat (p_max p)" using n by (simp add: word_less_nat_alt)
  then obtain p2 where run: "Permutation_Nexts (unat n + 1) p =
      Inr (map (\<lambda>j. permOf p (of_nat j)) [0..<unat n + 1], p2)"
    using Permutation_Nexts_ok [OF wf, of "unat n + 1"] f(5) by auto
  have "last (map (\<lambda>j. permOf p (of_nat j)) [0..<unat n + 1]) = permOf p n"
    by simp
  then show ?thesis using nth run by simp
qed

theorem C2_seek_equals_iterate_witness:
  "\<exists>v p1 vs p2.
     Permutation_Nth \<lparr>p_src = Some mixSeq, p_permSeed = 0, p_max = 3, p_counter = 0,
        p_rounds = 12, p_bits = \<lparr>Lo = 0, Hi = 0\<rparr>,
        p_k = [1, 0, 2, 1, 0, 2, 1, 0, 2, 1, 0, 2]\<rparr> 2 = Inr (v, p1) \<and>
     Permutation_Nexts (unat (2 :: i64) + 1) \<lparr>p_src = Some mixSeq, p_permSeed = 0, p_max = 3, p_counter = 0,
        p_rounds = 12, p_bits = \<lparr>Lo = 0, Hi = 0\<rparr>,
        p_k = [1, 0, 2, 1, 0, 2, 1, 0, 2, 1, 0, 2]\<rparr> = Inr (vs, p2) \<and>
     length vs = unat (2 :: i64) + 1 \<and> last vs = v"
proof -
  have a: "0 \<le>s (2 :: i64)" and b: "(2 :: i64) <s 3"
    by (simp_all add: word_sle_eq word_sless_alt)
  show ?thesis by (rule C2_seek_equals_iterate [OF NewPermutation_3 a b])
qed

end
